theory Spec2Isabelle
  imports Complex_Main
begin

section \<open>Text as the watcher sees it\<close>

text \<open>
  JavaScript strings are sequences of UTF-16 code units, and the regular expressions of
  \<^verbatim>\<open>watcher.js\<close> carry no \<^verbatim>\<open>u\<close> flag, so they work on code units. A string is
  modelled as the list of its code units (natural numbers; the prompt glyph U+203A does
  not fit an 8-bit character). \<open>lit\<close> turns an ASCII literal into that representation.
\<close>

type_synonym ustring = "nat list"

definition lit :: "string \<Rightarrow> ustring" where
  "lit s = map of_char s"

text \<open>
  \<^verbatim>\<open>String.prototype.replace(re, '')\<close> with a global regular expression: scan from the
  left; where the expression matches, drop the match and go on behind it; elsewhere keep
  the code unit. The expression is given by the function that says how many code units
  it matches at the head of a text (\<open>None\<close>: no match there). After an empty match the
  scan advances by one code unit, as in JavaScript.
\<close>

fun replaceAll :: "(ustring \<Rightarrow> nat option) \<Rightarrow> ustring \<Rightarrow> ustring" where
  "replaceAll m [] = []"
| "replaceAll m (c # cs) =
     (case m (c # cs) of
        None \<Rightarrow> c # replaceAll m cs
      | Some n \<Rightarrow> if n = 0 then c # replaceAll m cs else replaceAll m (drop (n - 1) cs))"

text \<open>
  \<^verbatim>\<open>ANSI_ESCAPE_RE = /\x1B(?:[@-Z\\-_]|\[[0-?]*[ -/]*[@-~])/g\<close>.
  The three classes of the second alternative are pairwise disjoint and \<^verbatim>\<open>[\<close> is not
  in the class of the first alternative, so the greedy match is the only match.
\<close>

definition esc_single :: "nat \<Rightarrow> bool" where
  \<comment> \<open>\<^verbatim>\<open>[@-Z\\-_]\<close>: 0x40 to 0x5A, and 0x5C to 0x5F\<close>
  "esc_single c = ((64 \<le> c \<and> c \<le> 90) \<or> (92 \<le> c \<and> c \<le> 95))"

definition csi_param :: "nat \<Rightarrow> bool" where
  \<comment> \<open>\<^verbatim>\<open>[0-?]\<close>: 0x30 to 0x3F\<close>
  "csi_param c = (48 \<le> c \<and> c \<le> 63)"

definition csi_inter :: "nat \<Rightarrow> bool" where
  \<comment> \<open>\<^verbatim>\<open>[ -/]\<close>: 0x20 to 0x2F\<close>
  "csi_inter c = (32 \<le> c \<and> c \<le> 47)"

definition csi_final :: "nat \<Rightarrow> bool" where
  \<comment> \<open>\<^verbatim>\<open>[@-~]\<close>: 0x40 to 0x7E\<close>
  "csi_final c = (64 \<le> c \<and> c \<le> 126)"

fun ANSI_ESCAPE_RE :: "ustring \<Rightarrow> nat option" where
  "ANSI_ESCAPE_RE (e # c # rest) =
     (if e \<noteq> 27 then None
      else if esc_single c then Some 2
      else if c = 91 then
        (let ps = takeWhile csi_param rest;
             r1 = dropWhile csi_param rest;
             is = takeWhile csi_inter r1;
             r2 = dropWhile csi_inter r1
         in case r2 of
              [] \<Rightarrow> None
            | f # _ \<Rightarrow> if csi_final f then Some (2 + length ps + length is + 1) else None)
      else None)"
| "ANSI_ESCAPE_RE _ = None"

text \<open>\<^verbatim>\<open>FOCUS_EVENT_RE = /\x1b\[(?:I|O)/g\<close>\<close>

fun FOCUS_EVENT_RE :: "ustring \<Rightarrow> nat option" where
  "FOCUS_EVENT_RE (e # b # c # rest) =
     (if e = 27 \<and> b = 91 \<and> (c = 73 \<or> c = 79) then Some 3 else None)"
| "FOCUS_EVENT_RE _ = None"

definition stripAnsi :: "ustring \<Rightarrow> ustring" where
  "stripAnsi input = replaceAll ANSI_ESCAPE_RE input"

section \<open>Input normalizer\<close>

text \<open>
  The value handed to \<^verbatim>\<open>onUserInput\<close>: \<^verbatim>\<open>undefined\<close>, \<^verbatim>\<open>null\<close>, or text. The host
  passes what standard input delivers, a string or a Buffer; \<open>Text\<close> stands for both,
  holding the string, or the UTF-8 decoding of the Buffer.
\<close>

datatype input = Undefined | Null | Text ustring

definition toText :: "input \<Rightarrow> ustring" where
  \<comment> \<open>\<^verbatim>\<open>Buffer.isBuffer(data) ? data.toString('utf8') : String(data)\<close>\<close>
  "toText d = (case d of Undefined \<Rightarrow> lit ''undefined'' | Null \<Rightarrow> lit ''null'' | Text t \<Rightarrow> t)"

definition control_char :: "nat \<Rightarrow> bool" where
  \<comment> \<open>\<^verbatim>\<open>[\x00-\x09\x0b\x0c\x0e-\x1f\x7f]\<close>\<close>
  "control_char c = (c \<le> 9 \<or> c = 11 \<or> c = 12 \<or> (14 \<le> c \<and> c \<le> 31) \<or> c = 127)"

definition strip_control :: "ustring \<Rightarrow> ustring" where
  "strip_control t = filter (\<lambda>c. \<not> control_char c) t"

definition isMeaningfulUserInput :: "input \<Rightarrow> bool" where
  "isMeaningfulUserInput d =
     (case d of
        Undefined \<Rightarrow> True
      | Null \<Rightarrow> True
      | Text text \<Rightarrow>
          if length text = 0 then False
          else
            let stripped = stripAnsi (replaceAll FOCUS_EVENT_RE text);
                printable = strip_control stripped
            in length printable > 0)"

definition isSubmission :: "input \<Rightarrow> bool" where
  "isSubmission d = (let text = toText d in 13 \<in> set text \<or> 10 \<in> set text)"

section \<open>Prompt patterns\<close>

text \<open>
  A pattern is what \<^verbatim>\<open>pattern.test(cleanData)\<close> answers for a text. The built-in
  expressions carry no \<^verbatim>\<open>g\<close> or \<^verbatim>\<open>y\<close> flag, so \<^verbatim>\<open>test\<close> keeps no position between
  calls and is a function of the text. A pattern handed in through the options is taken
  to be such a function too.

  An expression that is a literal matches where the literal occurs. Under the \<^verbatim>\<open>i\<close> flag
  (without \<^verbatim>\<open>u\<close>) two code units match when their canonical forms are equal; for an
  ASCII code unit of the pattern that is equality up to the case of the letters a to z,
  since a code unit from 128 on never canonicalizes to one below 128.
\<close>

type_synonym pattern = "ustring \<Rightarrow> bool"

definition canonicalize :: "nat \<Rightarrow> nat" where
  "canonicalize c = (if 97 \<le> c \<and> c \<le> 122 then c - 32 else c)"

definition same_char :: "nat \<Rightarrow> nat \<Rightarrow> bool" where
  "same_char p c = (p = c)"

definition same_char_i :: "nat \<Rightarrow> nat \<Rightarrow> bool" where
  "same_char_i p c = (canonicalize p = canonicalize c)"

fun starts_with :: "(nat \<Rightarrow> nat \<Rightarrow> bool) \<Rightarrow> ustring \<Rightarrow> ustring \<Rightarrow> bool" where
  "starts_with eq [] t = True"
| "starts_with eq (p # ps) [] = False"
| "starts_with eq (p # ps) (c # cs) = (eq p c \<and> starts_with eq ps cs)"

fun occurs :: "(nat \<Rightarrow> nat \<Rightarrow> bool) \<Rightarrow> ustring \<Rightarrow> ustring \<Rightarrow> bool" where
  "occurs eq p [] = starts_with eq p []"
| "occurs eq p (c # cs) = (starts_with eq p (c # cs) \<or> occurs eq p cs)"

definition PROMPT_PATTERNS :: "pattern list" where
  "PROMPT_PATTERNS =
     [occurs same_char_i (lit ''(y/n)''),
      occurs same_char_i (lit ''yes/no''),
      occurs same_char_i (lit ''press enter''),
      occurs same_char_i (lit ''do you want''),
      occurs same_char_i (lit ''proceed?''),
      occurs same_char_i (lit ''confirm'')]"

text \<open>
  \<^verbatim>\<open>/^\s*[>\<close>U+203A\<^verbatim>\<open>]\s+$/m\<close>: from the start of a line, white space, the glyph \<^verbatim>\<open>>\<close> or
  U+203A, at least one white space, up to the end of a line. \<^verbatim>\<open>\s\<close> is the white space and
  the line terminators of ECMAScript. White space is never the glyph, so \<^verbatim>\<open>\s*\<close> takes all
  of it; \<^verbatim>\<open>\s+\<close> may stop after any of its code units, wherever a line ends.
\<close>

definition line_terminator :: "nat \<Rightarrow> bool" where
  "line_terminator c = (c = 10 \<or> c = 13 \<or> c = 8232 \<or> c = 8233)"

definition white_space :: "nat \<Rightarrow> bool" where
  "white_space c =
     (c = 9 \<or> c = 11 \<or> c = 12 \<or> c = 32 \<or> c = 160 \<or> c = 5760 \<or> (8192 \<le> c \<and> c \<le> 8202)
      \<or> c = 8239 \<or> c = 8287 \<or> c = 12288 \<or> c = 65279 \<or> line_terminator c)"

definition at_line_end :: "ustring \<Rightarrow> bool" where
  \<comment> \<open>\<^verbatim>\<open>$\<close> under the \<^verbatim>\<open>m\<close> flag\<close>
  "at_line_end t = (case t of [] \<Rightarrow> True | c # _ \<Rightarrow> line_terminator c)"

fun spaces_to_line_end :: "ustring \<Rightarrow> bool" where
  \<comment> \<open>\<^verbatim>\<open>\s+$\<close>\<close>
  "spaces_to_line_end [] = False"
| "spaces_to_line_end (c # cs) = (white_space c \<and> (at_line_end cs \<or> spaces_to_line_end cs))"

definition prompt_glyph_here :: "ustring \<Rightarrow> bool" where
  \<comment> \<open>\<^verbatim>\<open>\s*[>\<close>U+203A\<^verbatim>\<open>]\s+$\<close> at the head of the text\<close>
  "prompt_glyph_here t =
     (case dropWhile white_space t of
        [] \<Rightarrow> False
      | g # rest \<Rightarrow> (g = 62 \<or> g = 8250) \<and> spaces_to_line_end rest)"

fun prompt_glyph_line :: "bool \<Rightarrow> ustring \<Rightarrow> bool" where
  \<comment> \<open>the flag says whether the head of the text is the start of a line (\<^verbatim>\<open>^\<close> under \<^verbatim>\<open>m\<close>)\<close>
  "prompt_glyph_line start [] = False"
| "prompt_glyph_line start (c # cs) =
     ((start \<and> prompt_glyph_here (c # cs)) \<or> prompt_glyph_line (line_terminator c) cs)"

definition CLAUDE_IDLE_PATTERNS :: "pattern list" where
  "CLAUDE_IDLE_PATTERNS =
     [prompt_glyph_line True,
      occurs same_char (lit ''? for shortcuts'')]"

definition matches_any :: "pattern list \<Rightarrow> ustring \<Rightarrow> bool" where
  \<comment> \<open>\<^verbatim>\<open>for (const pattern of patterns) if (pattern.test(cleanData)) ...\<close>\<close>
  "matches_any ps t = list_ex (\<lambda>pattern. pattern t) ps"

section \<open>Configuration\<close>

text \<open>
  The option values \<^verbatim>\<open>watch\<close> looks at, as JavaScript values. A finite number is the
  real number it denotes (no arithmetic is done on it); a pattern list stands for an
  array.
\<close>

datatype jsnum = Fin real | PosInf | NegInf | NaN

datatype jsval = JUndefined | JNull | JBool bool | JNum jsnum | JStr ustring
  | JArr "pattern list" | JObj

record options =
  opt_idleMs :: jsval
  opt_promptPatterns :: jsval
  opt_enableIdle :: jsval

record config =
  idleMs :: jsval
  enableIdle :: bool
  promptPatterns :: "pattern list"

definition DEFAULT_IDLE_MS :: jsval where
  "DEFAULT_IDLE_MS = JNum (Fin 4000)"

definition Number_isFinite :: "jsval \<Rightarrow> bool" where
  "Number_isFinite v = (case v of JNum (Fin x) \<Rightarrow> True | _ \<Rightarrow> False)"

definition Array_isArray :: "jsval \<Rightarrow> bool" where
  "Array_isArray v = (case v of JArr ps \<Rightarrow> True | _ \<Rightarrow> False)"

definition elements :: "jsval \<Rightarrow> pattern list" where
  \<comment> \<open>the elements of an array; used only behind \<open>Array_isArray\<close>\<close>
  "elements v = (case v of JArr ps \<Rightarrow> ps | _ \<Rightarrow> [])"

definition is_false :: "jsval \<Rightarrow> bool" where
  \<comment> \<open>\<^verbatim>\<open>v === false\<close>\<close>
  "is_false v = (case v of JBool b \<Rightarrow> \<not> b | _ \<Rightarrow> False)"

definition watch :: "options \<Rightarrow> config" where
  \<comment> \<open>the three constants \<^verbatim>\<open>watch\<close> resolves from its options\<close>
  "watch opts =
     \<lparr> idleMs = (if Number_isFinite (opt_idleMs opts) then opt_idleMs opts
                 else DEFAULT_IDLE_MS),
       enableIdle = (\<not> is_false (opt_enableIdle opts)),
       promptPatterns =
         (if Array_isArray (opt_promptPatterns opts)
             \<and> length (elements (opt_promptPatterns opts)) > 0
          then elements (opt_promptPatterns opts)
          else PROMPT_PATTERNS) \<rparr>"

definition no_options :: options where
  \<comment> \<open>\<^verbatim>\<open>options = {}\<close>\<close>
  "no_options = \<lparr> opt_idleMs = JUndefined, opt_promptPatterns = JUndefined,
                  opt_enableIdle = JUndefined \<rparr>"

text \<open>
  The entry point \<^verbatim>\<open>bin/blooop.js\<close> passes
  \<^verbatim>\<open>Number.isFinite(idleMsFromEnv) && idleMsFromEnv > 0 ? idleMsFromEnv : undefined\<close>
  and \<^verbatim>\<open>enableIdle: !disableIdle\<close>.
\<close>

definition cli_options :: "jsnum \<Rightarrow> bool \<Rightarrow> options" where
  "cli_options idleMsFromEnv disableIdle =
     \<lparr> opt_idleMs = (case idleMsFromEnv of
                        Fin x \<Rightarrow> if x > 0 then JNum (Fin x) else JUndefined
                      | _ \<Rightarrow> JUndefined),
       opt_promptPatterns = JUndefined,
       opt_enableIdle = JBool (\<not> disableIdle) \<rparr>"

section \<open>Detection state machine\<close>

datatype phase = IDLE | PROMPT | NOTIFIED

datatype reason = Idle | Prompt

text \<open>
  The variables of the closure that \<^verbatim>\<open>watch\<close> creates, followed by what the watcher
  acts on outside itself: the timers of the runtime that are scheduled and have neither
  fired nor been cleared (handle and delay), the next fresh timer handle, and the calls
  of \<^verbatim>\<open>onTrigger\<close> made so far, oldest first. \<open>idleTimer\<close> holds the handle that
  \<^verbatim>\<open>setTimeout\<close> returned, or \<open>None\<close> for \<^verbatim>\<open>null\<close>; it keeps the handle of a timer that
  has fired, as the source does.

  The callback \<^verbatim>\<open>onTrigger\<close> is taken to return normally and not to call back into the
  watcher; the host's callback logs and notifies.
\<close>

record watcher =
  state :: phase
  idleTimer :: "nat option"
  hadOutput :: bool
  userHasInteracted :: bool
  awaitingResponse :: bool
  stopped :: bool
  timers :: "(nat \<times> jsval) list"
  nextTimer :: nat
  fired :: "reason list"

definition initial :: watcher where
  "initial = \<lparr> state = IDLE, idleTimer = None, hadOutput = False,
               userHasInteracted = False, awaitingResponse = False, stopped = False,
               timers = [], nextTimer = 0, fired = [] \<rparr>"

definition clearTimeout :: "nat \<Rightarrow> watcher \<Rightarrow> watcher" where
  "clearTimeout h s = s\<lparr>timers := filter (\<lambda>(k, d). k \<noteq> h) (timers s)\<rparr>"

definition clearIdleTimer :: "watcher \<Rightarrow> watcher" where
  "clearIdleTimer s =
     (case idleTimer s of
        None \<Rightarrow> s
      | Some h \<Rightarrow> (clearTimeout h s)\<lparr>idleTimer := None\<rparr>)"

definition trigger :: "reason \<Rightarrow> watcher \<Rightarrow> watcher" where
  "trigger r s =
     (if stopped s \<or> state s = NOTIFIED then s
      else
        let s1 = s\<lparr>awaitingResponse := False\<rparr>;
            s2 = (if r = Prompt then s1\<lparr>state := PROMPT\<rparr> else s1);
            s3 = s2\<lparr>fired := fired s2 @ [r]\<rparr>
        in s3\<lparr>state := NOTIFIED\<rparr>)"

definition idleTimeout :: "watcher \<Rightarrow> watcher" where
  \<comment> \<open>the function \<^verbatim>\<open>resetIdle\<close> hands to \<^verbatim>\<open>setTimeout\<close>\<close>
  "idleTimeout s =
     (if stopped s \<or> state s \<noteq> IDLE then s
      else if \<not> hadOutput s \<or> \<not> userHasInteracted s \<or> \<not> awaitingResponse s then s
      else trigger Idle s)"

definition resetIdle :: "config \<Rightarrow> watcher \<Rightarrow> watcher" where
  "resetIdle cfg s =
     (let s1 = clearIdleTimer s;
          h = nextTimer s1
      in s1\<lparr>timers := timers s1 @ [(h, idleMs cfg)], nextTimer := Suc h,
            idleTimer := Some h\<rparr>)"

definition onData :: "config \<Rightarrow> ustring \<Rightarrow> watcher \<Rightarrow> watcher" where
  "onData cfg data s =
     (if stopped s then s
      else
        let s1 = s\<lparr>hadOutput := True\<rparr>;
            armed = (state s1 = IDLE \<and> userHasInteracted s1);
            cleanData = stripAnsi data
        in
          if armed \<and> awaitingResponse s1 \<and> matches_any CLAUDE_IDLE_PATTERNS cleanData
          then trigger Idle (clearIdleTimer s1)
          else if armed \<and> matches_any (promptPatterns cfg) cleanData
          then trigger Prompt (clearIdleTimer s1)
          else if state s1 = IDLE \<and> enableIdle cfg \<and> awaitingResponse s1
          then resetIdle cfg s1
          else s1)"

definition onUserInput :: "input \<Rightarrow> watcher \<Rightarrow> bool \<times> watcher" where
  "onUserInput data s =
     (if stopped s then (False, s)
      else if \<not> isMeaningfulUserInput data then (False, s)
      else
        let s1 = s\<lparr>userHasInteracted := True\<rparr>;
            s2 = s1\<lparr>state := IDLE\<rparr>;
            s3 = s2\<lparr>hadOutput := False\<rparr>;
            s4 = clearIdleTimer s3;
            s5 = s4\<lparr>awaitingResponse := False\<rparr>;
            s6 = (if isSubmission data then s5\<lparr>awaitingResponse := True\<rparr> else s5)
        in (True, s6))"

definition stop :: "watcher \<Rightarrow> watcher" where
  "stop s = (if stopped s then s else clearIdleTimer (s\<lparr>stopped := True\<rparr>))"

definition getState :: "watcher \<Rightarrow> phase" where
  "getState s = state s"

text \<open>
  What can happen to a watcher: the terminal delivers an output chunk, the runtime fires
  the timer with a given handle, the host passes user input, the host stops the watcher.
  The runtime runs \<open>idleTimeout\<close> only for a timer that is scheduled and has not been
  cleared, and a timer fires once.
\<close>

datatype event = Output ustring | TimerFire nat | UserInput input | Stop

definition fireTimer :: "nat \<Rightarrow> watcher \<Rightarrow> watcher" where
  "fireTimer h s =
     (if h \<in> fst ` set (timers s) then idleTimeout (clearTimeout h s) else s)"

fun step :: "config \<Rightarrow> event \<Rightarrow> watcher \<Rightarrow> watcher" where
  "step cfg (Output data) s = onData cfg data s"
| "step cfg (TimerFire h) s = fireTimer h s"
| "step cfg (UserInput data) s = snd (onUserInput data s)"
| "step cfg Stop s = stop s"

fun run :: "config \<Rightarrow> watcher \<Rightarrow> event list \<Rightarrow> watcher" where
  "run cfg s [] = s"
| "run cfg s (e # es) = run cfg (step cfg e s) es"

definition rearms :: "event \<Rightarrow> bool" where
  \<comment> \<open>a meaningful user input\<close>
  "rearms e = (case e of UserInput data \<Rightarrow> isMeaningfulUserInput data | _ \<Rightarrow> False)"

text \<open>
  Two notions for the proofs. A step \<open>fires\<close> when it adds one call of the callback;
  this happens only from the phase \<open>IDLE\<close> of a running watcher the user has interacted
  with, and leaves the phase \<open>NOTIFIED\<close> and \<open>awaitingResponse\<close> false. The timers are
  \<open>timers_owned\<close> when every scheduled timer is the one whose handle \<open>idleTimer\<close> holds.
\<close>

definition fires :: "watcher \<Rightarrow> watcher \<Rightarrow> bool" where
  "fires s s' = (\<exists>r. fired s' = fired s @ [r] \<and> \<not> stopped s \<and> state s = IDLE
      \<and> userHasInteracted s \<and> state s' = NOTIFIED \<and> \<not> awaitingResponse s')"

definition timers_owned :: "watcher \<Rightarrow> bool" where
  "timers_owned s = (\<forall>(k, d)\<in>set (timers s). idleTimer s = Some k)"

text \<open>
  \<open>is_output\<close> tells the output chunks from the other events. \<open>delays_resolved\<close> says
  that every scheduled timer carries the delay of the configuration.
\<close>

definition is_output :: "event \<Rightarrow> bool" where
  "is_output e = (case e of Output data \<Rightarrow> True | _ \<Rightarrow> False)"

definition delays_resolved :: "config \<Rightarrow> watcher \<Rightarrow> bool" where
  "delays_resolved cfg s = list_all (\<lambda>(k, d). d = idleMs cfg) (timers s)"

section \<open>Evaluation aids\<close>

lemmas normalizer_defs = isMeaningfulUserInput_def stripAnsi_def strip_control_def
  control_char_def esc_single_def csi_param_def csi_inter_def csi_final_def

lemmas timer_defs = clearIdleTimer_def clearTimeout_def resetIdle_def fireTimer_def

lemmas config_defs = watch_def no_options_def DEFAULT_IDLE_MS_def
  Number_isFinite_def Array_isArray_def elements_def is_false_def

lemmas pattern_defs = matches_any_def PROMPT_PATTERNS_def CLAUDE_IDLE_PATTERNS_def lit_def
  same_char_def same_char_i_def canonicalize_def prompt_glyph_here_def at_line_end_def
  white_space_def line_terminator_def

lemmas machine_defs = onData_def onUserInput_def stop_def idleTimeout_def trigger_def
  isSubmission_def toText_def initial_def rearms_def

lemmas handler_defs = onData_def onUserInput_def stop_def idleTimeout_def fireTimer_def

lemmas eval_defs = config_defs pattern_defs machine_defs timer_defs normalizer_defs Let_def

section \<open>What stripping keeps\<close>

text \<open>
  A global replace keeps every code unit that no match can contain, and leaves a text
  alone in which no match can start. Both expressions match only from an escape (27)
  and only over code units from 32 on.
\<close>

lemma replaceAll_keeps:
  "(\<forall>t n. m t = Some n \<longrightarrow> x \<notin> set (take n t)) \<Longrightarrow> x \<in> set t
     \<Longrightarrow> x \<in> set (replaceAll m t)"
proof (induction m t rule: replaceAll.induct)
  case (1 m)
  then show ?case by simp
next
  case (2 m c cs)
  show ?case
  proof (cases "m (c # cs)")
    case None
    with 2 show ?thesis by auto
  next
    case (Some n)
    show ?thesis
    proof (cases "n = 0")
      case True
      with 2 Some show ?thesis by auto
    next
      case False
      have "x \<notin> set (take n (c # cs))" using 2(4) Some by blast
      moreover have "set (c # cs) = set (take n (c # cs)) \<union> set (drop n (c # cs))"
        by (metis append_take_drop_id set_append)
      ultimately have "x \<in> set (drop n (c # cs))" using 2(5) by blast
      then have "x \<in> set (drop (n - 1) cs)" using False by (cases n) auto
      with 2 Some False show ?thesis by simp
    qed
  qed
qed

lemma take_csi:
  "set (take (length (takeWhile P r) + length (takeWhile Q (dropWhile P r)) + 1) r)
     \<subseteq> {c. P c} \<union> {c. Q c} \<union> set (take 1 (dropWhile Q (dropWhile P r)))"
proof -
  let ?ps = "takeWhile P r" and ?r1 = "dropWhile P r"
  let ?is = "takeWhile Q ?r1" and ?r2 = "dropWhile Q ?r1"
  have gen: "take (length a + length b + 1) (a @ b @ c) = a @ b @ take 1 c"
    for a b c :: "'a list" by simp
  have "?ps @ ?is @ ?r2 = r" by (simp only: takeWhile_dropWhile_id)
  with gen [of ?ps ?is ?r2]
  have "take (length ?ps + length ?is + 1) r = ?ps @ ?is @ take 1 ?r2" by (simp only:)
  moreover have "set ?ps \<subseteq> {c. P c}" by (auto dest: set_takeWhileD)
  moreover have "set ?is \<subseteq> {c. Q c}" by (auto dest: set_takeWhileD)
  ultimately show ?thesis by auto
qed

lemma ANSI_ESCAPE_RE_take:
  assumes "ANSI_ESCAPE_RE t = Some n" and "x \<in> set (take n t)"
  shows "x = 27 \<or> 32 \<le> x"
proof (cases t rule: ANSI_ESCAPE_RE.cases)
  case (1 e c rest)
  show ?thesis
  proof (cases "esc_single c")
    case True
    with 1 assms show ?thesis by (auto simp: esc_single_def split: if_splits)
  next
    case False
    let ?r2 = "dropWhile csi_inter (dropWhile csi_param rest)"
    from 1 assms(1) False have e: "e = 27" and c: "c = 91"
      by (auto split: if_splits)
    from 1 assms(1) False e c obtain f r where r2: "?r2 = f # r" and f: "csi_final f"
      and n: "n = 2 + length (takeWhile csi_param rest)
                + length (takeWhile csi_inter (dropWhile csi_param rest)) + 1"
      by (auto simp: Let_def split: list.splits if_splits)
    have "take n t = 27 # 91 # take (length (takeWhile csi_param rest)
                + length (takeWhile csi_inter (dropWhile csi_param rest)) + 1) rest"
      using 1 e c n by simp
    with assms(2) take_csi [of csi_param rest csi_inter] r2
    have "x = 27 \<or> x = 91 \<or> csi_param x \<or> csi_inter x \<or> x = f" by auto
    with f show ?thesis by (auto simp: csi_param_def csi_inter_def csi_final_def)
  qed
qed (use assms in auto)

lemma FOCUS_EVENT_RE_take:
  "FOCUS_EVENT_RE t = Some n \<Longrightarrow> x \<in> set (take n t) \<Longrightarrow> x = 27 \<or> 32 \<le> x"
  by (cases t rule: FOCUS_EVENT_RE.cases) (auto split: if_splits)

lemma newline_survives:
  assumes "x = 13 \<or> x = 10" and "x \<in> set t"
  shows "x \<in> set (strip_control (stripAnsi (replaceAll FOCUS_EVENT_RE t)))"
proof -
  have "\<forall>t n. FOCUS_EVENT_RE t = Some n \<longrightarrow> x \<notin> set (take n t)"
    using assms(1) FOCUS_EVENT_RE_take by fastforce
  with assms(2) have "x \<in> set (replaceAll FOCUS_EVENT_RE t)"
    by (rule replaceAll_keeps [rotated])
  moreover have "\<forall>t n. ANSI_ESCAPE_RE t = Some n \<longrightarrow> x \<notin> set (take n t)"
    using assms(1) ANSI_ESCAPE_RE_take by fastforce
  ultimately have "x \<in> set (stripAnsi (replaceAll FOCUS_EVENT_RE t))"
    unfolding stripAnsi_def by (rule replaceAll_keeps [rotated])
  then show ?thesis using assms(1) by (auto simp: strip_control_def control_char_def)
qed

lemma replaceAll_no_match:
  assumes "\<And>t n. m t = Some n \<Longrightarrow> hd t = e \<and> t \<noteq> []"
  shows "e \<notin> set t \<Longrightarrow> replaceAll m t = t"
proof (induction t)
  case Nil
  show ?case by simp
next
  case (Cons c cs)
  have "m (c # cs) = None"
  proof (cases "m (c # cs)")
    case (Some n)
    from assms [OF this] Cons.prems show ?thesis by simp
  qed simp
  with Cons show ?case by simp
qed

lemma ANSI_ESCAPE_RE_head: "ANSI_ESCAPE_RE t = Some n \<Longrightarrow> hd t = 27 \<and> t \<noteq> []"
  by (cases t rule: ANSI_ESCAPE_RE.cases) (auto split: if_splits)

lemma FOCUS_EVENT_RE_head: "FOCUS_EVENT_RE t = Some n \<Longrightarrow> hd t = 27 \<and> t \<noteq> []"
  by (cases t rule: FOCUS_EVENT_RE.cases) (auto split: if_splits)

lemma printable_unchanged:
  assumes "\<forall>c\<in>set t. 32 \<le> c \<and> c \<noteq> 127"
  shows "strip_control (stripAnsi (replaceAll FOCUS_EVENT_RE t)) = t"
proof -
  from assms have esc: "27 \<notin> set t" by auto
  have "replaceAll FOCUS_EVENT_RE t = t"
    using FOCUS_EVENT_RE_head esc by (rule replaceAll_no_match)
  moreover have "replaceAll ANSI_ESCAPE_RE t = t"
    using ANSI_ESCAPE_RE_head esc by (rule replaceAll_no_match)
  moreover have "filter (\<lambda>c. \<not> control_char c) t = t"
    using assms by (auto simp: filter_id_conv control_char_def)
  ultimately show ?thesis by (simp add: stripAnsi_def strip_control_def)
qed

section \<open>Meaningful input\<close>

text \<open>
  A backspace, sent as DEL (127), is stripped with the control characters and is not
  meaningful on its own.
\<close>

theorem backspace_not_meaningful:
  "isMeaningfulUserInput (Text [127]) = False"
  by (simp add: normalizer_defs)

text \<open>
  C2, amended. The classifier is a function of its input. Absent input (\<^verbatim>\<open>undefined\<close>,
  \<^verbatim>\<open>null\<close>) is meaningful. A text is meaningful exactly when a code unit is left after
  the focus events, then the other escape sequences, then the control characters other
  than carriage return (13) and line feed (10) are stripped. So a lone escape, the arrow
  keys \<^verbatim>\<open>ESC [ A\<close> to \<^verbatim>\<open>ESC [ D\<close> and the focus events \<^verbatim>\<open>ESC [ I\<close>, \<^verbatim>\<open>ESC [ O\<close> are not
  meaningful; a non-empty text of printable code units is, and so is every text that
  holds a carriage return or a line feed. A lone backspace (8 or 127) is not meaningful.
\<close>

theorem isMeaningfulUserInput_classifies:
  "isMeaningfulUserInput Undefined \<and> isMeaningfulUserInput Null
   \<and> isMeaningfulUserInput (Text t)
       = (strip_control (stripAnsi (replaceAll FOCUS_EVENT_RE t)) \<noteq> [])
   \<and> \<not> isMeaningfulUserInput (Text [27])
   \<and> (c \<in> {65, 66, 67, 68} \<longrightarrow> \<not> isMeaningfulUserInput (Text [27, 91, c]))
   \<and> \<not> isMeaningfulUserInput (Text [27, 91, 73])
   \<and> \<not> isMeaningfulUserInput (Text [27, 91, 79])
   \<and> (t \<noteq> [] \<and> (\<forall>c\<in>set t. 32 \<le> c \<and> c \<noteq> 127) \<longrightarrow> isMeaningfulUserInput (Text t))
   \<and> (13 \<in> set t \<or> 10 \<in> set t \<longrightarrow> isMeaningfulUserInput (Text t))
   \<and> \<not> isMeaningfulUserInput (Text [8])
   \<and> \<not> isMeaningfulUserInput (Text [127])"
proof -
  have eq: "isMeaningfulUserInput (Text t)
       = (strip_control (stripAnsi (replaceAll FOCUS_EVENT_RE t)) \<noteq> [])"
    by (cases t) (simp_all add: isMeaningfulUserInput_def stripAnsi_def strip_control_def)
  have arrows: "c \<in> {65, 66, 67, 68} \<longrightarrow> \<not> isMeaningfulUserInput (Text [27, 91, c])"
    by (auto simp: normalizer_defs)
  have printable: "t \<noteq> [] \<and> (\<forall>c\<in>set t. 32 \<le> c \<and> c \<noteq> 127)
      \<longrightarrow> isMeaningfulUserInput (Text t)"
    using printable_unchanged [of t] by (auto simp: eq)
  have newline: "13 \<in> set t \<or> 10 \<in> set t \<longrightarrow> isMeaningfulUserInput (Text t)"
    using newline_survives [of 13 t] newline_survives [of 10 t] by (auto simp: eq)
  have fixed: "isMeaningfulUserInput Undefined" "isMeaningfulUserInput Null"
    "\<not> isMeaningfulUserInput (Text [27])" "\<not> isMeaningfulUserInput (Text [27, 91, 73])"
    "\<not> isMeaningfulUserInput (Text [27, 91, 79])" "\<not> isMeaningfulUserInput (Text [8])"
    "\<not> isMeaningfulUserInput (Text [127])"
    by (simp_all add: normalizer_defs)
  from eq arrows printable newline fixed show ?thesis by blast
qed

theorem isMeaningfulUserInput_classifies_witness:
  "isMeaningfulUserInput (Text [104, 105]) \<and> isMeaningfulUserInput (Text [27, 91, 65, 13])
   \<and> \<not> isMeaningfulUserInput (Text [27, 91, 65])"
  using isMeaningfulUserInput_classifies [of "[104, 105]" 65]
    isMeaningfulUserInput_classifies [of "[27, 91, 65, 13]" 65]
  by (simp add: normalizer_defs)

text \<open>
  Beside the claim: in application cursor mode a terminal sends the arrow keys as
  \<^verbatim>\<open>ESC O A\<close> to \<^verbatim>\<open>ESC O D\<close>. The expression strips \<^verbatim>\<open>ESC O\<close> as a two-character
  escape and the letter stays, so the normalizer takes such a key for meaningful input.
\<close>

lemma application_mode_arrow_meaningful:
  "isMeaningfulUserInput (Text [27, 79, 65])"
  by (simp add: normalizer_defs)

section \<open>User input re-arms the watcher\<close>

text \<open>
  C3. \<^verbatim>\<open>onUserInput(data)\<close> returns false and leaves the whole state as it is when the
  watcher is stopped or the data is not meaningful. Otherwise it returns true, and the
  new state has \<open>userHasInteracted\<close> true, the phase \<open>IDLE\<close>, \<open>hadOutput\<close> false, no
  idle timer (the handle is dropped and its timer is taken from the scheduled ones), and
  \<open>awaitingResponse\<close> true exactly when the text of the data holds a carriage return
  (13) or a line feed (10); nothing else changes.
\<close>

theorem onUserInput_rearm:
  "onUserInput data s =
     (if stopped s \<or> \<not> isMeaningfulUserInput data then (False, s)
      else (True,
        s\<lparr>userHasInteracted := True, state := IDLE, hadOutput := False,
          idleTimer := None,
          timers := (case idleTimer s of
                       None \<Rightarrow> timers s
                     | Some h \<Rightarrow> filter (\<lambda>(k, d). k \<noteq> h) (timers s)),
          awaitingResponse := (13 \<in> set (toText data) \<or> 10 \<in> set (toText data))\<rparr>))"
  by (simp add: onUserInput_def clearIdleTimer_def clearTimeout_def isSubmission_def Let_def
       split: option.splits)

theorem onUserInput_rearm_witness:
  "onUserInput (Text [27, 91, 65]) (initial\<lparr>awaitingResponse := True\<rparr>)
     = (False, initial\<lparr>awaitingResponse := True\<rparr>)
   \<and> onUserInput (Text [13]) (initial\<lparr>idleTimer := Some 0, timers := [(0, JNum (Fin 20))]\<rparr>)
     = (True, initial\<lparr>userHasInteracted := True, awaitingResponse := True\<rparr>)
   \<and> onUserInput (Text [104]) (initial\<lparr>state := NOTIFIED, hadOutput := True\<rparr>)
     = (True, initial\<lparr>userHasInteracted := True\<rparr>)
   \<and> onUserInput (Text [13]) (initial\<lparr>stopped := True\<rparr>)
     = (False, initial\<lparr>stopped := True\<rparr>)"
  using onUserInput_rearm [of "Text [27, 91, 65]" "initial\<lparr>awaitingResponse := True\<rparr>"]
    onUserInput_rearm [of "Text [13]" "initial\<lparr>idleTimer := Some 0, timers := [(0, JNum (Fin 20))]\<rparr>"]
    onUserInput_rearm [of "Text [104]" "initial\<lparr>state := NOTIFIED, hadOutput := True\<rparr>"]
    onUserInput_rearm [of "Text [13]" "initial\<lparr>stopped := True\<rparr>"]
  by (simp add: normalizer_defs initial_def toText_def)

section \<open>The idle timer fires\<close>

text \<open>
  C4. The function the runtime calls when the idle timer fires reads the state of the
  moment it runs. It changes nothing and calls nothing when the watcher is stopped, or
  the phase is not \<open>IDLE\<close>, or one of \<open>hadOutput\<close>, \<open>userHasInteracted\<close>,
  \<open>awaitingResponse\<close> is false. Otherwise it fires the trigger with reason \<open>Idle\<close>:
  one call of the callback, \<open>awaitingResponse\<close> cleared, phase \<open>NOTIFIED\<close>. The
  runtime runs it for a scheduled timer on the state in which the timer fires.
\<close>

theorem idleTimeout_fire:
  "idleTimeout s =
     (if stopped s \<or> state s \<noteq> IDLE \<or> \<not> hadOutput s \<or> \<not> userHasInteracted s
         \<or> \<not> awaitingResponse s
      then s
      else s\<lparr>awaitingResponse := False, fired := fired s @ [Idle], state := NOTIFIED\<rparr>)
   \<and> (h \<in> fst ` set (timers s) \<longrightarrow> fireTimer h s = idleTimeout (clearTimeout h s))
   \<and> (idleTimeout s \<noteq> s \<longrightarrow> idleTimeout s = trigger Idle s)"
  by (simp add: idleTimeout_def trigger_def fireTimer_def)

theorem idleTimeout_fire_witness:
  "idleTimeout (initial\<lparr>hadOutput := True, userHasInteracted := True,
       awaitingResponse := True\<rparr>)
     = initial\<lparr>hadOutput := True, userHasInteracted := True, fired := [Idle],
         state := NOTIFIED\<rparr>
   \<and> idleTimeout (initial\<lparr>hadOutput := True, userHasInteracted := True\<rparr>)
     = initial\<lparr>hadOutput := True, userHasInteracted := True\<rparr>
   \<and> fireTimer 0 (initial\<lparr>hadOutput := True, userHasInteracted := True,
       awaitingResponse := True, idleTimer := Some 0, timers := [(0, JNum (Fin 20))]\<rparr>)
     = initial\<lparr>hadOutput := True, userHasInteracted := True, idleTimer := Some 0,
         fired := [Idle], state := NOTIFIED\<rparr>"
  using idleTimeout_fire [of "initial\<lparr>hadOutput := True, userHasInteracted := True,
       awaitingResponse := True\<rparr>" 0]
    idleTimeout_fire [of "initial\<lparr>hadOutput := True, userHasInteracted := True\<rparr>" 0]
    idleTimeout_fire [of "initial\<lparr>hadOutput := True, userHasInteracted := True,
       awaitingResponse := True, idleTimer := Some 0, timers := [(0, JNum (Fin 20))]\<rparr>" 0]
    idleTimeout_fire [of "initial\<lparr>hadOutput := True, userHasInteracted := True,
       awaitingResponse := True, idleTimer := Some 0\<rparr>" 0]
  by (simp add: initial_def clearTimeout_def)

section \<open>Steps and runs\<close>

text \<open>
  What one event does to the calls of the callback, to the phase and to the flags, and
  what follows for a run of events.
\<close>

lemma run_append: "run cfg s (es @ es') = run cfg (run cfg s es) es'"
  by (induction es arbitrary: s) simp_all

lemma trigger_cases:
  "trigger r s = (if stopped s \<or> state s = NOTIFIED then s
     else s\<lparr>awaitingResponse := False, fired := fired s @ [r], state := NOTIFIED\<rparr>)"
  by (simp add: trigger_def Let_def)

lemma clearIdleTimer_fields [simp]:
  "state (clearIdleTimer s) = state s" "hadOutput (clearIdleTimer s) = hadOutput s"
  "userHasInteracted (clearIdleTimer s) = userHasInteracted s"
  "awaitingResponse (clearIdleTimer s) = awaitingResponse s"
  "stopped (clearIdleTimer s) = stopped s" "fired (clearIdleTimer s) = fired s"
  "idleTimer (clearIdleTimer s) = None"
  by (simp_all add: clearIdleTimer_def clearTimeout_def split: option.splits)

lemma clearTimeout_fields [simp]:
  "state (clearTimeout h s) = state s" "hadOutput (clearTimeout h s) = hadOutput s"
  "userHasInteracted (clearTimeout h s) = userHasInteracted s"
  "awaitingResponse (clearTimeout h s) = awaitingResponse s"
  "stopped (clearTimeout h s) = stopped s" "fired (clearTimeout h s) = fired s"
  "idleTimer (clearTimeout h s) = idleTimer s"
  by (simp_all add: clearTimeout_def)

lemma resetIdle_fields [simp]:
  "state (resetIdle cfg s) = state s" "hadOutput (resetIdle cfg s) = hadOutput s"
  "userHasInteracted (resetIdle cfg s) = userHasInteracted s"
  "awaitingResponse (resetIdle cfg s) = awaitingResponse s"
  "stopped (resetIdle cfg s) = stopped s" "fired (resetIdle cfg s) = fired s"
  by (simp_all add: resetIdle_def Let_def)

lemma onData_fired: "fired (onData cfg d s) = fired s \<or> fires s (onData cfg d s)"
  by (simp add: onData_def trigger_cases fires_def Let_def)

lemma fireTimer_fired: "fired (fireTimer h s) = fired s \<or> fires s (fireTimer h s)"
  by (simp add: fireTimer_def idleTimeout_def trigger_cases fires_def)

lemma onUserInput_fired: "fired (snd (onUserInput d s)) = fired s"
  by (simp add: onUserInput_def Let_def)

lemma stop_fired: "fired (stop s) = fired s"
  by (simp add: stop_def)

lemma step_fired:
  "fired (step cfg e s) = fired s \<or> fires s (step cfg e s)"
  by (cases e) (simp_all add: onData_fired fireTimer_fired onUserInput_fired stop_fired)

lemma step_stays_notified:
  "\<not> rearms e \<Longrightarrow> state s = NOTIFIED \<Longrightarrow> state (step cfg e s) = NOTIFIED"
  by (cases e)
    (simp_all add: rearms_def handler_defs trigger_cases Let_def)

lemma step_keeps_interacted:
  "\<not> rearms e \<Longrightarrow> userHasInteracted (step cfg e s) = userHasInteracted s"
  by (cases e)
    (simp_all add: rearms_def handler_defs trigger_cases Let_def)

lemma step_awaiting_idle:
  "(awaitingResponse s \<longrightarrow> state s = IDLE)
     \<Longrightarrow> awaitingResponse (step cfg e s) \<longrightarrow> state (step cfg e s) = IDLE"
  by (cases e)
    (simp_all add: handler_defs trigger_cases Let_def)

lemma clearIdleTimer_timers:
  assumes "timers_owned s"
  shows "timers (clearIdleTimer s) = []"
proof (cases "idleTimer s")
  case None
  with assms have "timers s = []" by (cases "timers s") (force simp: timers_owned_def)+
  with None show ?thesis by (simp add: clearIdleTimer_def)
next
  case (Some h)
  with assms have "\<forall>(k, d)\<in>set (timers s). k = h" by (auto simp: timers_owned_def)
  with Some show ?thesis
    by (auto simp: clearIdleTimer_def clearTimeout_def filter_empty_conv)
qed

lemma timers_owned_upd [simp]:
  "timers_owned (s\<lparr>hadOutput := a\<rparr>) = timers_owned s"
  "timers_owned (s\<lparr>stopped := a\<rparr>) = timers_owned s"
  "timers_owned (s\<lparr>state := p\<rparr>) = timers_owned s"
  "timers_owned (s\<lparr>userHasInteracted := a\<rparr>) = timers_owned s"
  "timers_owned (s\<lparr>awaitingResponse := a\<rparr>) = timers_owned s"
  "timers_owned (s\<lparr>fired := f\<rparr>) = timers_owned s"
  by (simp_all add: timers_owned_def)

lemma timers_owned_empty: "timers s = [] \<Longrightarrow> timers_owned s"
  by (simp add: timers_owned_def)

lemma trigger_timers [simp]: "timers (trigger r s) = timers s"
  "idleTimer (trigger r s) = idleTimer s"
  by (simp_all add: trigger_cases)

lemma trigger_owned [simp]: "timers_owned (trigger r s) = timers_owned s"
  by (simp add: timers_owned_def)

lemma clearIdleTimer_owned: "timers_owned s \<Longrightarrow> timers_owned (clearIdleTimer s)"
  by (simp add: clearIdleTimer_timers timers_owned_empty)

lemma resetIdle_owned: "timers_owned s \<Longrightarrow> timers_owned (resetIdle cfg s)"
  using clearIdleTimer_timers [of s]
  by (simp add: resetIdle_def Let_def timers_owned_def)

lemma onData_owned: "timers_owned s \<Longrightarrow> timers_owned (onData cfg d s)"
  by (simp add: onData_def Let_def clearIdleTimer_owned resetIdle_owned)

lemma fireTimer_owned: "timers_owned s \<Longrightarrow> timers_owned (fireTimer h s)"
  by (auto simp: fireTimer_def idleTimeout_def timers_owned_def clearTimeout_def)

lemma onUserInput_owned: "timers_owned s \<Longrightarrow> timers_owned (snd (onUserInput d s))"
  by (simp add: onUserInput_def Let_def clearIdleTimer_owned)

lemma stop_owned: "timers_owned s \<Longrightarrow> timers_owned (stop s)"
  by (simp add: stop_def clearIdleTimer_owned)

lemma step_owned: "timers_owned s \<Longrightarrow> timers_owned (step cfg e s)"
  by (cases e) (simp_all add: onData_owned fireTimer_owned onUserInput_owned stop_owned)

lemma run_owned: "timers_owned s \<Longrightarrow> timers_owned (run cfg s es)"
  by (induction es arbitrary: s) (simp_all add: step_owned)

lemma initial_owned: "timers_owned initial"
  by (simp add: timers_owned_def initial_def)

lemma run_notified:
  "\<forall>e\<in>set es. \<not> rearms e \<Longrightarrow> state s = NOTIFIED
     \<Longrightarrow> fired (run cfg s es) = fired s \<and> state (run cfg s es) = NOTIFIED"
proof (induction es arbitrary: s)
  case Nil
  then show ?case by simp
next
  case (Cons e es)
  from Cons.prems have e: "\<not> rearms e" by simp
  from step_fired [of cfg e s] Cons.prems(2)
  have "fired (step cfg e s) = fired s" by (auto simp: fires_def)
  moreover have "state (step cfg e s) = NOTIFIED"
    using e Cons.prems(2) by (rule step_stays_notified)
  ultimately show ?case using Cons.IH [of "step cfg e s"] Cons.prems(1) by simp
qed

lemma run_fires_once:
  "\<forall>e\<in>set es. \<not> rearms e
     \<Longrightarrow> fired (run cfg s es) = fired s \<or> (\<exists>r. fired (run cfg s es) = fired s @ [r])"
proof (induction es arbitrary: s)
  case Nil
  then show ?case by simp
next
  case (Cons e es)
  from Cons.prems have rest: "\<forall>e\<in>set es. \<not> rearms e" by simp
  from step_fired [of cfg e s] show ?case
  proof
    assume "fired (step cfg e s) = fired s"
    with Cons.IH [OF rest, of "step cfg e s"] show ?thesis by simp
  next
    assume "fires s (step cfg e s)"
    then obtain r where r: "fired (step cfg e s) = fired s @ [r]"
      and n: "state (step cfg e s) = NOTIFIED" by (auto simp: fires_def)
    from run_notified [OF rest n, of cfg] r show ?thesis by simp
  qed
qed

lemma run_not_interacted:
  "\<forall>e\<in>set es. \<not> rearms e \<Longrightarrow> userHasInteracted (run cfg s es) = userHasInteracted s"
  by (induction es arbitrary: s) (simp_all add: step_keeps_interacted)

lemma step_quiet_before_interaction:
  "\<not> userHasInteracted s \<longrightarrow> fired s = []
     \<Longrightarrow> \<not> userHasInteracted (step cfg e s) \<longrightarrow> fired (step cfg e s) = []"
  by (cases e) (simp_all add: handler_defs trigger_cases Let_def)

lemma run_quiet_before_interaction:
  "\<not> userHasInteracted s \<longrightarrow> fired s = []
     \<Longrightarrow> \<not> userHasInteracted (run cfg s es) \<longrightarrow> fired (run cfg s es) = []"
proof (induction es arbitrary: s)
  case Nil
  then show ?case by simp
next
  case (Cons e es)
  from step_quiet_before_interaction [OF Cons.prems, of cfg e]
  show ?case using Cons.IH [of "step cfg e s"] by simp
qed

lemma run_awaiting_idle:
  "awaitingResponse s \<longrightarrow> state s = IDLE
     \<Longrightarrow> awaitingResponse (run cfg s es) \<longrightarrow> state (run cfg s es) = IDLE"
proof (induction es arbitrary: s)
  case Nil
  then show ?case by simp
next
  case (Cons e es)
  from step_awaiting_idle [OF Cons.prems, of cfg e]
  show ?case using Cons.IH [of "step cfg e s"] by simp
qed

section \<open>A stopped watcher, a watcher without idle timer, timer delays\<close>

lemma stopped_step: "stopped s \<Longrightarrow> timers s = [] \<Longrightarrow> step cfg e s = s"
  by (cases e) (simp_all add: handler_defs)

lemma step_stopped_timers:
  assumes "timers_owned s" and "stopped s \<longrightarrow> timers s = []"
  shows "stopped (step cfg e s) \<longrightarrow> timers (step cfg e s) = []"
proof (cases "stopped s")
  case True
  with assms(2) show ?thesis by (simp add: stopped_step)
next
  case False
  show ?thesis
  proof (cases e)
    case Stop
    from assms(1) have "timers (clearIdleTimer (s\<lparr>stopped := True\<rparr>)) = []"
      by (intro clearIdleTimer_timers) simp
    with False Stop show ?thesis by (simp add: stop_def)
  qed (use False in \<open>simp_all add: handler_defs trigger_cases Let_def\<close>)
qed

lemma run_stopped_timers:
  "timers_owned s \<Longrightarrow> stopped s \<longrightarrow> timers s = []
     \<Longrightarrow> stopped (run cfg s es) \<longrightarrow> timers (run cfg s es) = []"
proof (induction es arbitrary: s)
  case Nil
  then show ?case by simp
next
  case (Cons e es)
  from Cons.prems have "timers_owned (step cfg e s)"
    and "stopped (step cfg e s) \<longrightarrow> timers (step cfg e s) = []"
    by (simp_all add: step_owned step_stopped_timers)
  then show ?case using Cons.IH [of "step cfg e s"] by simp
qed

lemma run_stopped: "stopped s \<Longrightarrow> timers s = [] \<Longrightarrow> run cfg s es = s"
  by (induction es) (simp_all add: stopped_step)

lemma step_no_timers:
  "\<not> enableIdle cfg \<Longrightarrow> timers s = [] \<Longrightarrow> timers (step cfg e s) = []"
  by (cases e)
    (simp_all add: handler_defs trigger_cases Let_def clearIdleTimer_timers timers_owned_empty)

lemma run_no_timers:
  "\<not> enableIdle cfg \<Longrightarrow> timers s = [] \<Longrightarrow> timers (run cfg s es) = []"
  by (induction es arbitrary: s) (simp_all add: step_no_timers)

lemma step_silent:
  "\<not> is_output e \<Longrightarrow> timers s = []
     \<Longrightarrow> fired (step cfg e s) = fired s \<and> timers (step cfg e s) = []"
  by (cases e)
    (simp_all add: is_output_def fireTimer_def onUserInput_def stop_def Let_def
       clearIdleTimer_timers timers_owned_empty)

lemma run_silent:
  "\<forall>e\<in>set es. \<not> is_output e \<Longrightarrow> timers s = [] \<Longrightarrow> fired (run cfg s es) = fired s"
proof (induction es arbitrary: s)
  case Nil
  then show ?case by simp
next
  case (Cons e es)
  from Cons.prems have "fired (step cfg e s) = fired s \<and> timers (step cfg e s) = []"
    by (intro step_silent) simp_all
  with Cons.IH [of "step cfg e s"] Cons.prems(1) show ?case by simp
qed

lemma onData_reason:
  "fired (onData cfg data s) = fired s
   \<or> fired (onData cfg data s) = fired s @ [Idle] \<and> awaitingResponse s
       \<and> matches_any CLAUDE_IDLE_PATTERNS (stripAnsi data)
   \<or> fired (onData cfg data s) = fired s @ [Prompt]
       \<and> matches_any (promptPatterns cfg) (stripAnsi data)"
  by (simp add: onData_def trigger_cases Let_def)

lemma clearTimeout_delays: "delays_resolved cfg s \<Longrightarrow> delays_resolved cfg (clearTimeout h s)"
  by (auto simp: delays_resolved_def clearTimeout_def list_all_iff)

lemma clearIdleTimer_delays:
  "delays_resolved cfg s \<Longrightarrow> delays_resolved cfg (clearIdleTimer s)"
  by (auto simp: delays_resolved_def clearIdleTimer_def clearTimeout_def list_all_iff
      split: option.splits)

lemma delays_resolved_upd [simp]:
  "delays_resolved cfg (s\<lparr>hadOutput := a\<rparr>) = delays_resolved cfg s"
  "delays_resolved cfg (s\<lparr>stopped := a\<rparr>) = delays_resolved cfg s"
  "delays_resolved cfg (s\<lparr>state := p\<rparr>) = delays_resolved cfg s"
  "delays_resolved cfg (s\<lparr>userHasInteracted := a\<rparr>) = delays_resolved cfg s"
  "delays_resolved cfg (s\<lparr>awaitingResponse := a\<rparr>) = delays_resolved cfg s"
  "delays_resolved cfg (s\<lparr>fired := f\<rparr>) = delays_resolved cfg s"
  "delays_resolved cfg (trigger r s) = delays_resolved cfg s"
  by (simp_all add: delays_resolved_def)

lemma resetIdle_delays: "delays_resolved cfg s \<Longrightarrow> delays_resolved cfg (resetIdle cfg s)"
  using clearIdleTimer_delays [of cfg s]
  by (simp add: resetIdle_def Let_def delays_resolved_def)

lemma step_delays: "delays_resolved cfg s \<Longrightarrow> delays_resolved cfg (step cfg e s)"
  by (cases e)
    (simp_all add: handler_defs Let_def clearIdleTimer_delays clearTimeout_delays
       resetIdle_delays)

lemma run_delays: "delays_resolved cfg s \<Longrightarrow> delays_resolved cfg (run cfg s es)"
  by (induction es arbitrary: s) (simp_all add: step_delays)

section \<open>Occurrences of a literal\<close>

lemma starts_with_iff:
  "starts_with eq p t \<longleftrightarrow> (\<exists>mid post. t = mid @ post \<and> list_all2 eq p mid)"
proof (induction eq p t rule: starts_with.induct)
  case (1 eq t)
  show ?case by simp
next
  case (2 eq p ps)
  show ?case by simp
next
  case (3 eq p ps c cs)
  show ?case
  proof
    assume "starts_with eq (p # ps) (c # cs)"
    with 3 obtain mid post where "cs = mid @ post" "list_all2 eq ps mid" "eq p c" by auto
    then have "c # cs = (c # mid) @ post \<and> list_all2 eq (p # ps) (c # mid)" by simp
    then show "\<exists>mid post. c # cs = mid @ post \<and> list_all2 eq (p # ps) mid" by blast
  next
    assume "\<exists>mid post. c # cs = mid @ post \<and> list_all2 eq (p # ps) mid"
    then obtain mid post where m: "c # cs = mid @ post" "list_all2 eq (p # ps) mid" by blast
    then obtain m ms where "mid = m # ms" "eq p m" "list_all2 eq ps ms"
      by (auto simp: list_all2_Cons1)
    with m 3 show "starts_with eq (p # ps) (c # cs)" by auto
  qed
qed

lemma occurs_iff:
  "occurs eq p t \<longleftrightarrow> (\<exists>pre mid post. t = pre @ mid @ post \<and> list_all2 eq p mid)"
proof (induction t)
  case Nil
  show ?case by (simp add: starts_with_iff)
next
  case (Cons c cs)
  show ?case
  proof
    assume "occurs eq p (c # cs)"
    then consider "starts_with eq p (c # cs)" | "occurs eq p cs" by auto
    then show "\<exists>pre mid post. c # cs = pre @ mid @ post \<and> list_all2 eq p mid"
    proof cases
      case 1
      then obtain mid post where "c # cs = [] @ mid @ post \<and> list_all2 eq p mid"
        by (auto simp: starts_with_iff)
      then show ?thesis by blast
    next
      case 2
      with Cons obtain pre mid post where "cs = pre @ mid @ post" "list_all2 eq p mid"
        by blast
      then have "c # cs = (c # pre) @ mid @ post \<and> list_all2 eq p mid" by simp
      then show ?thesis by blast
    qed
  next
    assume "\<exists>pre mid post. c # cs = pre @ mid @ post \<and> list_all2 eq p mid"
    then obtain pre mid post where t: "c # cs = pre @ mid @ post" and m: "list_all2 eq p mid"
      by blast
    show "occurs eq p (c # cs)"
    proof (cases pre)
      case Nil
      with t m have "starts_with eq p (c # cs)" by (auto simp: starts_with_iff)
      then show ?thesis by simp
    next
      case (Cons a pre')
      with t m have "occurs eq p cs" using Cons.IH by auto
      then show ?thesis by simp
    qed
  qed
qed

lemma same_char_i_iff:
  "same_char_i a c
     = (a = c \<or> (97 \<le> a \<and> a \<le> 122 \<and> c + 32 = a) \<or> (97 \<le> c \<and> c \<le> 122 \<and> a + 32 = c))"
  by (auto simp: same_char_i_def canonicalize_def)

lemma stripAnsi_plain: "27 \<notin> set data \<Longrightarrow> stripAnsi data = data"
  unfolding stripAnsi_def using ANSI_ESCAPE_RE_head by (rule replaceAll_no_match)

section \<open>One trigger for each arm cycle\<close>

text \<open>
  C1. Take any events \<open>pre\<close> a watcher has processed, and any events \<open>es\<close> after them
  among which no user input is meaningful: output chunks, timer firings, inputs that are
  not meaningful, stops. Over \<open>es\<close> the callback is called at most once. With \<open>pre\<close>
  empty this is the time before the first meaningful input; with \<open>pre\<close> ending in a
  meaningful input it is the time up to the next one. Once the phase is \<open>NOTIFIED\<close>
  nothing more is called: of a pattern match and a timer firing in one arm cycle, only
  the one processed first calls the callback.
\<close>

theorem trigger_once_per_arm:
  assumes "\<forall>e\<in>set es. \<not> rearms e"
  shows "\<exists>rs. fired (run cfg initial (pre @ es)) = fired (run cfg initial pre) @ rs
           \<and> length rs \<le> 1
           \<and> (state (run cfg initial pre) = NOTIFIED \<longrightarrow> rs = [])"
proof -
  let ?s = "run cfg initial pre"
  from run_fires_once [OF assms, of cfg ?s]
  have "\<exists>rs. fired (run cfg ?s es) = fired ?s @ rs \<and> length rs \<le> 1" by auto
  moreover have "state ?s = NOTIFIED \<longrightarrow> fired (run cfg ?s es) = fired ?s"
    using run_notified [OF assms, of ?s cfg] by simp
  ultimately show ?thesis by (auto simp: run_append)
qed

theorem trigger_once_per_arm_witness:
  "list_all (\<lambda>e. \<not> rearms e)
     [Output (lit ''working''), TimerFire 0, Output (lit ''(y/n)''), TimerFire 0,
      UserInput (Text [27, 91, 65])]
   \<and> fired (run (watch no_options) initial [UserInput (Text [13])]) = []
   \<and> fired (run (watch no_options) initial ([UserInput (Text [13])] @
        [Output (lit ''working''), TimerFire 0, Output (lit ''(y/n)''), TimerFire 0,
         UserInput (Text [27, 91, 65])])) = [Idle]"
  using trigger_once_per_arm [of "[Output (lit ''working''), TimerFire 0,
        Output (lit ''(y/n)''), TimerFire 0, UserInput (Text [27, 91, 65])]"
      "watch no_options" "[UserInput (Text [13])]"]
  by (simp add: eval_defs)

section \<open>No trigger before the user interacts\<close>

text \<open>
  C8. In every state a watcher reaches from its initial state, whatever the
  configuration, \<open>userHasInteracted\<close> false implies that the callback has not been
  called. A run without a meaningful user input, of any output chunks and timer firings,
  calls the callback not once.
\<close>

theorem no_trigger_before_interaction:
  "(\<not> userHasInteracted (run cfg initial es) \<longrightarrow> fired (run cfg initial es) = [])
   \<and> ((\<forall>e\<in>set es. \<not> rearms e) \<longrightarrow> fired (run cfg initial es) = [])"
proof -
  have inv: "\<not> userHasInteracted (run cfg initial es) \<longrightarrow> fired (run cfg initial es) = []"
    by (rule run_quiet_before_interaction) (simp add: initial_def)
  moreover have "(\<forall>e\<in>set es. \<not> rearms e) \<longrightarrow> \<not> userHasInteracted (run cfg initial es)"
    using run_not_interacted [of es cfg initial] by (simp add: initial_def)
  ultimately show ?thesis by blast
qed

theorem no_trigger_before_interaction_witness:
  "list_all (\<lambda>e. \<not> rearms e)
     [Output (lit ''Do you want to continue? (y/n)''), Output [62, 32],
      UserInput (Text [27, 91, 73]), TimerFire 0]
   \<and> fired (run (watch no_options) initial
        [Output (lit ''Do you want to continue? (y/n)''), Output [62, 32],
         UserInput (Text [27, 91, 73]), TimerFire 0]) = []"
  using no_trigger_before_interaction [of "watch no_options"
      "[Output (lit ''Do you want to continue? (y/n)''), Output [62, 32],
        UserInput (Text [27, 91, 73]), TimerFire 0]"]
  by (simp add: rearms_def normalizer_defs)

section \<open>Awaiting a response\<close>

text \<open>
  After the user submits a line \<open>awaitingResponse\<close> is true, and an arrow key that
  arrives then is not meaningful and leaves it true.
\<close>

theorem awaitingResponse_survives_input:
  "awaitingResponse (run (watch no_options) initial [UserInput (Text [13])])
   \<and> awaitingResponse (run (watch no_options) initial
        [UserInput (Text [13]), UserInput (Text [27, 91, 65])])"
  by (simp add: eval_defs)

text \<open>
  C9, amended. In every state a watcher reaches, \<open>awaitingResponse\<close> true implies the
  phase \<open>IDLE\<close>. Every firing of the trigger leaves \<open>awaitingResponse\<close> false. A
  meaningful user input to a running watcher leaves it true exactly when the input is a
  submission, and false otherwise; an input that is not meaningful, or that arrives at a
  stopped watcher, changes nothing.
\<close>

theorem awaitingResponse_invariant:
  "(awaitingResponse (run cfg initial es) \<longrightarrow> state (run cfg initial es) = IDLE)
   \<and> (\<not> stopped s \<and> state s \<noteq> NOTIFIED \<longrightarrow> \<not> awaitingResponse (trigger r s))
   \<and> (fired (step cfg e s) \<noteq> fired s \<longrightarrow> \<not> awaitingResponse (step cfg e s))
   \<and> (\<not> stopped s \<and> isMeaningfulUserInput d \<longrightarrow>
        awaitingResponse (step cfg (UserInput d) s) = isSubmission d)
   \<and> (stopped s \<or> \<not> isMeaningfulUserInput d \<longrightarrow> step cfg (UserInput d) s = s)"
proof -
  have "awaitingResponse (run cfg initial es) \<longrightarrow> state (run cfg initial es) = IDLE"
    by (rule run_awaiting_idle) (simp add: initial_def)
  moreover have "fired (step cfg e s) \<noteq> fired s \<longrightarrow> \<not> awaitingResponse (step cfg e s)"
    using step_fired [of cfg e s] by (auto simp: fires_def)
  moreover have "\<not> stopped s \<and> state s \<noteq> NOTIFIED \<longrightarrow> \<not> awaitingResponse (trigger r s)"
    by (simp add: trigger_cases)
  moreover have "\<not> stopped s \<and> isMeaningfulUserInput d \<longrightarrow>
        awaitingResponse (step cfg (UserInput d) s) = isSubmission d"
    by (simp add: onUserInput_def Let_def)
  moreover have "stopped s \<or> \<not> isMeaningfulUserInput d \<longrightarrow> step cfg (UserInput d) s = s"
    by (auto simp: onUserInput_def)
  ultimately show ?thesis by blast
qed

theorem awaitingResponse_invariant_witness:
  "awaitingResponse (run (watch no_options) initial [UserInput (Text [13]), Output (lit ''working'')])
   \<and> state (run (watch no_options) initial [UserInput (Text [13]), Output (lit ''working'')]) = IDLE
   \<and> \<not> awaitingResponse (step (watch no_options) (Output [62, 32])
         (run (watch no_options) initial [UserInput (Text [13])]))
   \<and> \<not> awaitingResponse (step (watch no_options) (UserInput (Text [104]))
         (run (watch no_options) initial [UserInput (Text [13])]))
   \<and> step (watch no_options) (UserInput (Text [27]))
         (run (watch no_options) initial [UserInput (Text [13])])
       = run (watch no_options) initial [UserInput (Text [13])]"
  using awaitingResponse_invariant [of "watch no_options"
      "[UserInput (Text [13]), Output (lit ''working'')]"
      "run (watch no_options) initial [UserInput (Text [13])]" Idle "Output [62, 32]"
      "Text [104]"]
    awaitingResponse_invariant [of "watch no_options" "[]"
      "run (watch no_options) initial [UserInput (Text [13])]" Idle "Output [62, 32]"
      "Text [27]"]
  by (simp add: eval_defs)

section \<open>Stopping\<close>

text \<open>
  C6. \<^verbatim>\<open>stop()\<close> is idempotent and leaves the watcher stopped. A stopped watcher is not
  changed by an output chunk, by \<^verbatim>\<open>onUserInput\<close> (which answers false), by the function
  of the idle timer, by the trigger or by another stop, and none of them calls the
  callback. In a state the watcher reaches from its initial state, no timer is scheduled
  after the stop (the one scheduled before it is cleared), and every run of further
  events, timer firings among them, leaves the whole state as the stop left it.
\<close>

theorem stop_final:
  "stop (stop s) = stop s \<and> stopped (stop s)
   \<and> (stopped s \<longrightarrow> onData cfg data s = s \<and> onUserInput d s = (False, s)
         \<and> idleTimeout s = s \<and> trigger r s = s \<and> stop s = s
         \<and> fired (fireTimer h s) = fired s)
   \<and> timers (stop (run cfg initial es)) = []
   \<and> run cfg (stop (run cfg initial es)) es' = stop (run cfg initial es)"
proof -
  let ?s = "run cfg initial es"
  have idem: "stop (stop t) = stop t" "stopped (stop t)" for t
    by (simp_all add: stop_def)
  have inert: "stopped s \<longrightarrow> onData cfg data s = s \<and> onUserInput d s = (False, s)
         \<and> idleTimeout s = s \<and> trigger r s = s \<and> stop s = s
         \<and> fired (fireTimer h s) = fired s"
    by (simp add: handler_defs trigger_cases)
  have owned: "timers_owned ?s" by (simp add: run_owned initial_owned)
  have "stopped ?s \<longrightarrow> timers ?s = []"
    by (rule run_stopped_timers) (simp_all add: initial_owned, simp add: initial_def)
  then have none: "timers (stop ?s) = []"
    using owned clearIdleTimer_timers [of "?s\<lparr>stopped := True\<rparr>"] by (simp add: stop_def)
  with idem(2) [of ?s] have "run cfg (stop ?s) es' = stop ?s" by (simp add: run_stopped)
  with idem [of s] inert none show ?thesis by blast
qed

theorem stop_final_witness:
  "run (watch no_options) initial [UserInput (Text [13]), Output (lit ''about to stop'')]
     = initial\<lparr>userHasInteracted := True, awaitingResponse := True, hadOutput := True,
         idleTimer := Some 0, timers := [(0, JNum (Fin 4000))], nextTimer := 1\<rparr>
   \<and> run (watch no_options)
       (stop (run (watch no_options) initial
          [UserInput (Text [13]), Output (lit ''about to stop'')]))
       [TimerFire 0, Output (lit ''(y/n)''), UserInput (Text [13]), Output [62, 32],
        TimerFire 1, Stop]
     = initial\<lparr>userHasInteracted := True, awaitingResponse := True, hadOutput := True,
         nextTimer := 1, stopped := True\<rparr>"
  using stop_final [of "initial\<lparr>stopped := True\<rparr>" "watch no_options" "[]" Undefined Idle 0
      "[UserInput (Text [13]), Output (lit ''about to stop'')]"
      "[TimerFire 0, Output (lit ''(y/n)''), UserInput (Text [13]), Output [62, 32],
        TimerFire 1, Stop]"]
  by (simp add: eval_defs)

section \<open>Idle detection disabled\<close>

text \<open>
  With \<^verbatim>\<open>enableIdle: false\<close>, a submitted line followed by an output chunk that shows the
  agent's prompt glyph fires the trigger with reason \<open>Idle\<close>.
\<close>

theorem idle_reason_with_idle_disabled:
  "\<not> enableIdle (watch (no_options\<lparr>opt_enableIdle := JBool False\<rparr>))
   \<and> fired (run (watch (no_options\<lparr>opt_enableIdle := JBool False\<rparr>)) initial
        [UserInput (Text [13]), Output [62, 32]]) = [Idle]"
  by (simp add: eval_defs)

text \<open>
  C5, amended. With \<open>enableIdle\<close> false no idle timer is ever scheduled: in every state
  the watcher reaches, a timer firing changes nothing, and a run of events without an
  output chunk (silence, user input, stop) calls the callback not once. The callback is
  called only while an output chunk is processed: with reason \<open>Prompt\<close> when the
  cleaned chunk matches one of \<open>promptPatterns\<close>, or with reason \<open>Idle\<close> when a response
  is awaited and the cleaned chunk matches one of the built-in agent-idle patterns.
\<close>

theorem idle_disabled_no_timer:
  assumes "\<not> enableIdle cfg"
  shows "timers (run cfg initial es) = []
   \<and> step cfg (TimerFire h) (run cfg initial es) = run cfg initial es
   \<and> ((\<forall>e\<in>set es'. \<not> is_output e) \<longrightarrow>
        fired (run cfg (run cfg initial es) es') = fired (run cfg initial es))
   \<and> fired (step cfg (UserInput d) s) = fired s
   \<and> fired (step cfg Stop s) = fired s
   \<and> (fired (step cfg (Output data) s) = fired s
       \<or> fired (step cfg (Output data) s) = fired s @ [Idle] \<and> awaitingResponse s
           \<and> matches_any CLAUDE_IDLE_PATTERNS (stripAnsi data)
       \<or> fired (step cfg (Output data) s) = fired s @ [Prompt]
           \<and> matches_any (promptPatterns cfg) (stripAnsi data))"
proof -
  have none: "timers (run cfg initial es) = []"
    using assms by (rule run_no_timers) (simp add: initial_def)
  then have "step cfg (TimerFire h) (run cfg initial es) = run cfg initial es"
    by (simp add: fireTimer_def)
  moreover have "(\<forall>e\<in>set es'. \<not> is_output e) \<longrightarrow>
        fired (run cfg (run cfg initial es) es') = fired (run cfg initial es)"
    using none by (simp add: run_silent)
  moreover have "fired (step cfg (UserInput d) s) = fired s" "fired (step cfg Stop s) = fired s"
    by (simp_all add: onUserInput_fired stop_fired)
  moreover note onData_reason [of cfg data s] none
  ultimately show ?thesis by simp
qed

theorem idle_disabled_no_timer_witness:
  "fired (run (watch (no_options\<lparr>opt_enableIdle := JBool False\<rparr>))
      (run (watch (no_options\<lparr>opt_enableIdle := JBool False\<rparr>)) initial
         [UserInput (Text [13]), Output (lit ''plain output'')])
      [TimerFire 0, UserInput (Text [27, 91, 65]), TimerFire 1]) = []
   \<and> timers (run (watch (no_options\<lparr>opt_enableIdle := JBool False\<rparr>)) initial
         [UserInput (Text [13]), Output (lit ''plain output'')]) = []"
  using idle_disabled_no_timer [of "watch (no_options\<lparr>opt_enableIdle := JBool False\<rparr>)"
      "[UserInput (Text [13]), Output (lit ''plain output'')]" 0
      "[TimerFire 0, UserInput (Text [27, 91, 65]), TimerFire 1]" Undefined initial "[]"]
  by (simp add: eval_defs is_output_def)

section \<open>The idle duration\<close>

text \<open>
  \<^verbatim>\<open>watch\<close> takes zero and negative numbers as they are, and the idle timer is scheduled
  with them.
\<close>

theorem idleMs_zero_accepted:
  "idleMs (watch (no_options\<lparr>opt_idleMs := JNum (Fin 0)\<rparr>)) = JNum (Fin 0)
   \<and> idleMs (watch (no_options\<lparr>opt_idleMs := JNum (Fin (- 5))\<rparr>)) = JNum (Fin (- 5))
   \<and> timers (run (watch (no_options\<lparr>opt_idleMs := JNum (Fin 0)\<rparr>)) initial
        [UserInput (Text [13]), Output (lit ''working'')]) = [(0, JNum (Fin 0))]"
  by (simp add: eval_defs)

text \<open>
  C7, amended. \<^verbatim>\<open>watch\<close> resolves the idle duration to \<^verbatim>\<open>options.idleMs\<close> when that is
  a finite number, of any sign, and to the default 4000 for every other value (absent, not
  a number, infinite, NaN). \<^verbatim>\<open>resetIdle\<close> schedules the timer with the resolved
  duration, and every timer scheduled in a state the watcher reaches carries it. Through
  the entry point, which hands on only a positive finite number, the duration is that
  number, and 4000 for everything else.
\<close>

theorem idleMs_resolution:
  "idleMs (watch (opts\<lparr>opt_idleMs := JNum (Fin x)\<rparr>)) = JNum (Fin x)
   \<and> ((\<forall>y. opt_idleMs opts \<noteq> JNum (Fin y)) \<longrightarrow> idleMs (watch opts) = JNum (Fin 4000))
   \<and> timers (resetIdle cfg s) = timers (clearIdleTimer s) @ [(nextTimer s, idleMs cfg)]
   \<and> list_all (\<lambda>(k, d). d = idleMs cfg) (timers (run cfg initial es))
   \<and> (0 < x \<longrightarrow> idleMs (watch (cli_options (Fin x) b)) = JNum (Fin x))
   \<and> ((\<forall>y. n = Fin y \<longrightarrow> y \<le> 0) \<longrightarrow> idleMs (watch (cli_options n b)) = JNum (Fin 4000))"
proof -
  have finite: "idleMs (watch (opts\<lparr>opt_idleMs := JNum (Fin x)\<rparr>)) = JNum (Fin x)"
    by (simp add: watch_def Number_isFinite_def)
  have other: "(\<forall>y. opt_idleMs opts \<noteq> JNum (Fin y)) \<longrightarrow> idleMs (watch opts) = JNum (Fin 4000)"
    by (auto simp: watch_def Number_isFinite_def DEFAULT_IDLE_MS_def
        split: jsval.splits jsnum.splits)
  have reset: "timers (resetIdle cfg s) = timers (clearIdleTimer s) @ [(nextTimer s, idleMs cfg)]"
    by (simp add: resetIdle_def Let_def clearIdleTimer_def clearTimeout_def split: option.splits)
  have "delays_resolved cfg (run cfg initial es)"
    by (rule run_delays) (simp add: delays_resolved_def initial_def)
  then have every: "list_all (\<lambda>(k, d). d = idleMs cfg) (timers (run cfg initial es))"
    by (simp add: delays_resolved_def)
  have cli: "0 < x \<longrightarrow> idleMs (watch (cli_options (Fin x) b)) = JNum (Fin x)"
    "(\<forall>y. n = Fin y \<longrightarrow> y \<le> 0) \<longrightarrow> idleMs (watch (cli_options n b)) = JNum (Fin 4000)"
    by (auto simp: config_defs cli_options_def split: jsnum.splits)
  from finite other reset every cli show ?thesis by blast
qed

theorem idleMs_resolution_witness:
  "idleMs (watch (no_options\<lparr>opt_idleMs := JNum (Fin 20)\<rparr>)) = JNum (Fin 20)
   \<and> idleMs (watch (no_options\<lparr>opt_idleMs := JStr (lit ''20'')\<rparr>)) = JNum (Fin 4000)
   \<and> idleMs (watch (no_options\<lparr>opt_idleMs := JNum PosInf\<rparr>)) = JNum (Fin 4000)
   \<and> idleMs (watch (no_options\<lparr>opt_idleMs := JNum NaN\<rparr>)) = JNum (Fin 4000)
   \<and> idleMs (watch no_options) = JNum (Fin 4000)
   \<and> idleMs (watch (cli_options (Fin 250) False)) = JNum (Fin 250)
   \<and> idleMs (watch (cli_options (Fin 0) False)) = JNum (Fin 4000)
   \<and> idleMs (watch (cli_options NaN False)) = JNum (Fin 4000)"
  using idleMs_resolution [where opts = no_options and x = 20 and n = NaN and b = False
      and cfg = "watch no_options" and s = initial and es = "[]"]
    idleMs_resolution [where opts = "no_options\<lparr>opt_idleMs := JStr (lit ''20'')\<rparr>"
      and x = 250 and n = "Fin 0" and b = False
      and cfg = "watch no_options" and s = initial and es = "[]"]
    idleMs_resolution [where opts = "no_options\<lparr>opt_idleMs := JNum PosInf\<rparr>"
      and x = 1 and n = NaN and b = False
      and cfg = "watch no_options" and s = initial and es = "[]"]
    idleMs_resolution [where opts = "no_options\<lparr>opt_idleMs := JNum NaN\<rparr>"
      and x = 1 and n = NaN and b = False
      and cfg = "watch no_options" and s = initial and es = "[]"]
    idleMs_resolution [where opts = no_options and x = 1 and n = NaN and b = False
      and cfg = "watch no_options" and s = initial and es = "[]"]
  by (simp add: no_options_def)

section \<open>Default prompt patterns\<close>

text \<open>
  With an empty pattern list the built-in patterns are in use. After a submitted line, a
  chunk that holds \<^verbatim>\<open>(y/n)\<close> and, on a line of its own, the agent's prompt glyph fires
  the trigger with reason \<open>Idle\<close>, not \<open>Prompt\<close>: the agent-idle patterns are tested
  first.
\<close>

theorem prompt_chunk_fires_idle:
  "promptPatterns (watch (no_options\<lparr>opt_promptPatterns := JArr []\<rparr>)) = PROMPT_PATTERNS
   \<and> occurs same_char (lit ''(y/n)'') (lit ''Continue? (y/n)'' @ [10, 62, 32])
   \<and> fired (run (watch (no_options\<lparr>opt_promptPatterns := JArr []\<rparr>)) initial
        [UserInput (Text [13]), Output (lit ''Continue? (y/n)'' @ [10, 62, 32])]) = [Idle]"
  by (simp add: eval_defs)

text \<open>
  C10, amended. When \<^verbatim>\<open>options.promptPatterns\<close> is absent, not an array, or an empty
  array, \<^verbatim>\<open>watch\<close> uses the built-in patterns: a text matches when one of the six
  phrases occurs in it, where two code units count as the same when they are equal or are
  the lower-case and upper-case form of one of the letters a to z. An empty list does not
  switch prompt detection off: for a running watcher in phase \<open>IDLE\<close> that the user has
  interacted with, an output chunk whose cleaned text contains \<^verbatim>\<open>(y/n)\<close> fires the
  trigger, with reason \<open>Prompt\<close> unless a response is awaited and the chunk matches one
  of the agent-idle patterns; in that case any chunk fires it with reason \<open>Idle\<close>. A
  chunk without an escape is its own cleaned text.
\<close>

theorem promptPatterns_resolution:
  assumes "opt_promptPatterns opts = JUndefined \<or> \<not> Array_isArray (opt_promptPatterns opts)
     \<or> opt_promptPatterns opts = JArr []"
  shows "promptPatterns (watch opts) = PROMPT_PATTERNS
   \<and> matches_any PROMPT_PATTERNS t
       = (\<exists>p\<in>set [lit ''(y/n)'', lit ''yes/no'', lit ''press enter'', lit ''do you want'',
                   lit ''proceed?'', lit ''confirm'']. occurs same_char_i p t)
   \<and> occurs same_char_i p t
       = (\<exists>pre mid post. t = pre @ mid @ post \<and> list_all2 same_char_i p mid)
   \<and> same_char_i a c
       = (a = c \<or> (97 \<le> a \<and> a \<le> 122 \<and> c + 32 = a) \<or> (97 \<le> c \<and> c \<le> 122 \<and> a + 32 = c))
   \<and> (27 \<notin> set data \<longrightarrow> stripAnsi data = data)
   \<and> (\<not> stopped s \<and> state s = IDLE \<and> userHasInteracted s
        \<and> occurs same_char_i (lit ''(y/n)'') (stripAnsi data)
        \<and> \<not> (awaitingResponse s \<and> matches_any CLAUDE_IDLE_PATTERNS (stripAnsi data))
      \<longrightarrow> fired (onData (watch opts) data s) = fired s @ [Prompt]
          \<and> state (onData (watch opts) data s) = NOTIFIED)
   \<and> (\<not> stopped s \<and> state s = IDLE \<and> userHasInteracted s
        \<and> awaitingResponse s \<and> matches_any CLAUDE_IDLE_PATTERNS (stripAnsi data)
      \<longrightarrow> fired (onData (watch opts) data s) = fired s @ [Idle]
          \<and> state (onData (watch opts) data s) = NOTIFIED)"
proof -
  from assms have default: "promptPatterns (watch opts) = PROMPT_PATTERNS"
    by (auto simp: watch_def Array_isArray_def elements_def)
  have listed: "matches_any PROMPT_PATTERNS t
       = (\<exists>p\<in>set [lit ''(y/n)'', lit ''yes/no'', lit ''press enter'', lit ''do you want'',
                   lit ''proceed?'', lit ''confirm'']. occurs same_char_i p t)"
    by (simp add: matches_any_def PROMPT_PATTERNS_def)
  have "occurs same_char_i (lit ''(y/n)'') (stripAnsi data)
      \<longrightarrow> matches_any PROMPT_PATTERNS (stripAnsi data)"
    by (simp add: matches_any_def PROMPT_PATTERNS_def)
  then have prompt: "\<not> stopped s \<and> state s = IDLE \<and> userHasInteracted s
        \<and> occurs same_char_i (lit ''(y/n)'') (stripAnsi data)
        \<and> \<not> (awaitingResponse s \<and> matches_any CLAUDE_IDLE_PATTERNS (stripAnsi data))
      \<longrightarrow> fired (onData (watch opts) data s) = fired s @ [Prompt]
          \<and> state (onData (watch opts) data s) = NOTIFIED"
    by (auto simp: onData_def default trigger_cases Let_def)
  have idle: "\<not> stopped s \<and> state s = IDLE \<and> userHasInteracted s
        \<and> awaitingResponse s \<and> matches_any CLAUDE_IDLE_PATTERNS (stripAnsi data)
      \<longrightarrow> fired (onData (watch opts) data s) = fired s @ [Idle]
          \<and> state (onData (watch opts) data s) = NOTIFIED"
    by (simp add: onData_def trigger_cases Let_def)
  from default listed occurs_iff [of same_char_i p t] same_char_i_iff [of a c]
    stripAnsi_plain [of data] prompt idle
  show ?thesis by blast
qed

theorem promptPatterns_resolution_witness:
  "fired (onData (watch (no_options\<lparr>opt_promptPatterns := JArr []\<rparr>))
       (lit ''Do you want to continue? (Y/N)'')
       (snd (onUserInput (Text (lit ''x'')) initial))) = [Prompt]
   \<and> fired (onData (watch (no_options\<lparr>opt_promptPatterns := JArr []\<rparr>))
       (lit ''Continue? (y/n)'' @ [10, 62, 32])
       (snd (onUserInput (Text [13]) initial))) = [Idle]
   \<and> same_char_i 121 89 \<and> same_char_i 89 121 \<and> \<not> same_char_i 121 110
   \<and> promptPatterns (watch (no_options\<lparr>opt_promptPatterns := JArr []\<rparr>)) = PROMPT_PATTERNS
   \<and> promptPatterns (watch (no_options\<lparr>opt_promptPatterns := JStr (lit ''(y/n)'')\<rparr>))
       = PROMPT_PATTERNS
   \<and> promptPatterns (watch no_options) = PROMPT_PATTERNS"
  using promptPatterns_resolution [where opts = "no_options\<lparr>opt_promptPatterns := JArr []\<rparr>"
      and t = "[]" and p = "[]" and a = 121 and c = 89
      and data = "lit ''Do you want to continue? (Y/N)''"
      and s = "snd (onUserInput (Text (lit ''x'')) initial)"]
    promptPatterns_resolution [where opts = "no_options\<lparr>opt_promptPatterns := JArr []\<rparr>"
      and t = "[]" and p = "[]" and a = 89 and c = 121
      and data = "lit ''Continue? (y/n)'' @ [10, 62, 32]"
      and s = "snd (onUserInput (Text [13]) initial)"]
    promptPatterns_resolution [where opts = "no_options\<lparr>opt_promptPatterns := JStr (lit ''(y/n)'')\<rparr>"
      and t = "[]" and p = "[]" and a = 121 and c = 110 and data = "[]" and s = initial]
    promptPatterns_resolution [where opts = no_options
      and t = "[]" and p = "[]" and a = 121 and c = 110 and data = "[]" and s = initial]
  by (simp add: eval_defs)

end
